theory Spec2Isabelle
  imports Main
begin

section \<open>The sparsity interface of CasADi: contract and algebra layer\<close>

text \<open>
  \<^verbatim>\<open>casadi/core/matrix/sparsity_interface.hpp\<close> declares the class template
  \<^verbatim>\<open>SparsityInterface<MatType>\<close>. Its friend functions are written once and call
  members of \<^verbatim>\<open>MatType\<close> only: the shape accessors \<^verbatim>\<open>size1\<close>, \<^verbatim>\<open>size2\<close>, the
  members \<^verbatim>\<open>zz_horzcat\<close>, \<^verbatim>\<open>zz_vertcat\<close>, \<^verbatim>\<open>zz_horzsplit\<close>, \<^verbatim>\<open>zz_vertsplit\<close>,
  \<^verbatim>\<open>zz_blkdiag\<close>, \<^verbatim>\<open>zz_mtimes\<close> (two overloads) and \<^verbatim>\<open>T\<close>.

  A failed \<^verbatim>\<open>casadi_assert\<close> throws; a thrown exception is the \<open>Inl\<close> branch of a sum.
  The two kinds of error are those of the specification.
\<close>

datatype error = InvalidArgument | ShapeMismatch

text \<open>
  The members of \<^verbatim>\<open>MatType\<close> that a friend function calls, one event per call.
  An outcome is the list of calls made, in order, and the value returned or the
  error thrown.
\<close>

datatype call =
    Call_size1 | Call_size2
  | Call_zz_horzcat | Call_zz_vertcat
  | Call_zz_horzsplit | Call_zz_vertsplit
  | Call_zz_blkdiag | Call_zz_mtimes | Call_zz_mtimes3 | Call_T

type_synonym 'a outcome = "call list \<times> (error + 'a)"

text \<open>
  The template parameter \<^verbatim>\<open>MatType\<close> (the curiously recurring template pattern) is a
  record of the members the friend functions use: the static dispatch of the
  template is the passing of this record. \<open>default_ctor\<close> is the value that
  \<^verbatim>\<open>std::vector<MatType> v(2)\<close> fills the vector with; \<open>zz_mtimes3\<close> is the
  three-argument overload of \<^verbatim>\<open>zz_mtimes\<close>.
\<close>

record 'm MatType =
  default_ctor :: "'m"
  size1 :: "'m \<Rightarrow> int"
  size2 :: "'m \<Rightarrow> int"
  zz_horzcat :: "'m list \<Rightarrow> error + 'm"
  zz_vertcat :: "'m list \<Rightarrow> error + 'm"
  zz_horzsplit :: "'m \<Rightarrow> int list \<Rightarrow> error + 'm list"
  zz_vertsplit :: "'m \<Rightarrow> int list \<Rightarrow> error + 'm list"
  zz_blkdiag :: "'m list \<Rightarrow> error + 'm"
  zz_mtimes :: "'m \<Rightarrow> 'm \<Rightarrow> error + 'm"
  zz_mtimes3 :: "'m \<Rightarrow> 'm \<Rightarrow> 'm \<Rightarrow> error + 'm"
  T :: "'m \<Rightarrow> error + 'm"

subsection \<open>Helpers declared outside the header\<close>

text \<open>
  Modelled from the spec: the macros \<^verbatim>\<open>casadi_assert\<close> and \<^verbatim>\<open>casadi_assert_message\<close>
  (their header is not part of the sources at hand). The specification gives the
  failure of both checks of this header the kind \<open>InvalidArgument\<close>.
\<close>

definition casadi_assert :: "bool \<Rightarrow> error + unit" where
  "casadi_assert c = (if c then Inr () else Inl InvalidArgument)"

text \<open>
  Modelled from the spec: \<^verbatim>\<open>range(start, stop, step)\<close> of \<^verbatim>\<open>std_vector_tools.hpp\<close>
  (not part of the sources at hand): the values \<open>start, start + step, start + 2 step, \<dots>\<close>
  that lie below \<open>stop\<close>. The header calls it with \<open>step \<ge> 1\<close> only.
\<close>

definition range_int :: "int \<Rightarrow> int \<Rightarrow> int \<Rightarrow> int list" where
  "range_int start stop step =
     map (\<lambda>k. start + int k * step) [0 ..< nat ((stop - start + step - 1) div step)]"

subsection \<open>The friend functions\<close>

definition horzcat :: "'m MatType \<Rightarrow> 'm list \<Rightarrow> 'm outcome" where
  "horzcat M v = ([Call_zz_horzcat], zz_horzcat M v)"

definition horzcat2 :: "'m MatType \<Rightarrow> 'm \<Rightarrow> 'm \<Rightarrow> 'm outcome" where
  "horzcat2 M x y =
     (let v = replicate 2 (default_ctor M);
          v = v[0 := x];
          v = v[1 := y]
      in horzcat M v)"

definition vertcat :: "'m MatType \<Rightarrow> 'm list \<Rightarrow> 'm outcome" where
  "vertcat M v = ([Call_zz_vertcat], zz_vertcat M v)"

definition vertcat2 :: "'m MatType \<Rightarrow> 'm \<Rightarrow> 'm \<Rightarrow> 'm outcome" where
  "vertcat2 M x y =
     (let v = replicate 2 (default_ctor M);
          v = v[0 := x];
          v = v[1 := y]
      in vertcat M v)"

definition horzsplit :: "'m MatType \<Rightarrow> 'm \<Rightarrow> int list \<Rightarrow> 'm list outcome" where
  "horzsplit M v offset = ([Call_zz_horzsplit], zz_horzsplit M v offset)"

definition horzsplit_incr :: "'m MatType \<Rightarrow> 'm \<Rightarrow> int \<Rightarrow> 'm list outcome" where
  "horzsplit_incr M v incr =
     (case casadi_assert (incr \<ge> 1) of
        Inl e \<Rightarrow> ([], Inl e)
      | Inr _ \<Rightarrow>
          (let sz2 = size2 M v;
               offset2 = range_int 0 sz2 incr;
               offset2 = offset2 @ [sz2]
           in case horzsplit M v offset2 of (t, r) \<Rightarrow> (Call_size2 # t, r)))"

text \<open>The default argument \<^verbatim>\<open>int incr=1\<close>: the call with one argument.\<close>

definition horzsplit_default :: "'m MatType \<Rightarrow> 'm \<Rightarrow> 'm list outcome" where
  "horzsplit_default M v = horzsplit_incr M v 1"

definition vertsplit :: "'m MatType \<Rightarrow> 'm \<Rightarrow> int list \<Rightarrow> 'm list outcome" where
  "vertsplit M v offset = ([Call_zz_vertsplit], zz_vertsplit M v offset)"

definition vertsplit_incr :: "'m MatType \<Rightarrow> 'm \<Rightarrow> int \<Rightarrow> 'm list outcome" where
  "vertsplit_incr M v incr =
     (case casadi_assert (incr \<ge> 1) of
        Inl e \<Rightarrow> ([], Inl e)
      | Inr _ \<Rightarrow>
          (let sz1 = size1 M v;
               offset1 = range_int 0 sz1 incr;
               offset1 = offset1 @ [sz1]
           in case vertsplit M v offset1 of (t, r) \<Rightarrow> (Call_size1 # t, r)))"

definition vertsplit_default :: "'m MatType \<Rightarrow> 'm \<Rightarrow> 'm list outcome" where
  "vertsplit_default M v = vertsplit_incr M v 1"

definition blkdiag :: "'m MatType \<Rightarrow> 'm list \<Rightarrow> 'm outcome" where
  "blkdiag M A = ([Call_zz_blkdiag], zz_blkdiag M A)"

definition blkdiag2 :: "'m MatType \<Rightarrow> 'm \<Rightarrow> 'm \<Rightarrow> 'm outcome" where
  "blkdiag2 M x y =
     (let v = replicate 2 (default_ctor M);
          v = v[0 := x];
          v = v[1 := y]
      in blkdiag M v)"

definition mul :: "'m MatType \<Rightarrow> 'm \<Rightarrow> 'm \<Rightarrow> 'm outcome" where
  "mul M X Y = ([Call_zz_mtimes], zz_mtimes M X Y)"

definition mul3 :: "'m MatType \<Rightarrow> 'm \<Rightarrow> 'm \<Rightarrow> 'm \<Rightarrow> 'm outcome" where
  "mul3 M X Y Z = ([Call_zz_mtimes3], zz_mtimes3 M X Y Z)"

text \<open>
  The loop \<^verbatim>\<open>for (int i=1; i<args.size(); ++i) ret = mul(ret, args[i])\<close>, from the
  index \<open>i\<close> and the current \<open>ret\<close>. An exception thrown by \<^verbatim>\<open>mul\<close> leaves the loop.
  The index is an \<^verbatim>\<open>int\<close> compared with \<^verbatim>\<open>args.size()\<close>; a vector of \<open>2^31\<close> values
  or more is out of reach, so the index does not wrap and is a natural number here.
\<close>

function mul_loop :: "'m MatType \<Rightarrow> 'm list \<Rightarrow> nat \<Rightarrow> 'm \<Rightarrow> 'm outcome" where
  "mul_loop M args i ret =
     (if i < length args then
        (case mul M ret (args ! i) of
           (t, Inl e) \<Rightarrow> (t, Inl e)
         | (t, Inr r) \<Rightarrow> (case mul_loop M args (i + 1) r of (t', res) \<Rightarrow> (t @ t', res)))
      else ([], Inr ret))"
  by pat_completeness auto
termination
  by (relation "measure (\<lambda>(M, args, i, ret). length args - i)") auto

declare mul_loop.simps [simp del]

definition mul_list :: "'m MatType \<Rightarrow> 'm list \<Rightarrow> 'm outcome" where
  "mul_list M args =
     (case casadi_assert (length args \<ge> 1) of
        Inl e \<Rightarrow> ([], Inl e)
      | Inr _ \<Rightarrow> mul_loop M args 1 (args ! 0))"

definition transpose_m :: "'m MatType \<Rightarrow> 'm \<Rightarrow> 'm outcome" where
  "transpose_m M X = ([Call_T], T M X)"


subsection \<open>Sequencing of outcomes, and the fold of the specification\<close>

text \<open>
  \<open>bind_outcome p f\<close> is \<^verbatim>\<open>f(p)\<close> as C++ evaluates it: the argument first; when it
  throws, \<open>f\<close> is not called; otherwise the calls of \<open>f\<close> follow those of \<open>p\<close>.
\<close>

definition bind_outcome :: "'a outcome \<Rightarrow> ('a \<Rightarrow> 'b outcome) \<Rightarrow> 'b outcome" where
  "bind_outcome p f =
     (case p of
        (t, Inl e) \<Rightarrow> (t, Inl e)
      | (t, Inr a) \<Rightarrow> (case f a of (t', r) \<Rightarrow> (t @ t', r)))"

text \<open>
  The n-ary product in the words of the specification, to be compared with
  \<open>mul_list\<close>: \<open>result = list[0]\<close>; for each subsequent element \<open>e\<close>,
  \<open>result = mul(result, e)\<close>.
\<close>

definition mul_fold_spec :: "'m MatType \<Rightarrow> 'm list \<Rightarrow> 'm outcome" where
  "mul_fold_spec M list =
     foldl (\<lambda>result e. bind_outcome result (\<lambda>r. mul M r e)) ([], Inr (list ! 0)) (drop 1 list)"

section \<open>A representation that satisfies the contract\<close>

text \<open>
  Modelled from the spec: the matrix-like value. No class that instantiates
  \<^verbatim>\<open>SparsityInterface\<close> (\<^verbatim>\<open>Sparsity\<close>, \<^verbatim>\<open>Matrix<>\<close>, \<^verbatim>\<open>MX\<close>) is among the sources
  at hand. The specification describes a rectangular object with \<open>rows \<ge> 0\<close>,
  \<open>cols \<ge> 0\<close>, a sparsity pattern and elements. Here the columns are stored in
  order, each a list of \<open>rows\<close> cells; a cell is \<open>None\<close> for a structural zero and
  \<open>Some v\<close> for a position of the sparsity pattern holding \<open>v\<close>.
\<close>

record 'a matrix =
  rows :: nat
  cols :: nat
  cells :: "'a option list list"

text \<open>Modelled from the spec: the value is rectangular.\<close>

definition wf_matrix :: "'a matrix \<Rightarrow> bool" where
  "wf_matrix X \<longleftrightarrow>
     length (cells X) = cols X \<and> list_all (\<lambda>c. length c = rows X) (cells X)"

text \<open>Modelled from the spec: the cell at row \<open>i\<close>, column \<open>j\<close>; outside the shape
  every position is a structural zero.\<close>

definition entry :: "'a matrix \<Rightarrow> nat \<Rightarrow> nat \<Rightarrow> 'a option" where
  "entry X i j = (if i < rows X \<and> j < cols X then cells X ! j ! i else None)"

text \<open>Modelled from the spec: the sparsity pattern, the set of structurally nonzero
  positions \<open>(i, j)\<close>.\<close>

definition pattern :: "'a matrix \<Rightarrow> (nat \<times> nat) set" where
  "pattern X =
     set (concat (map (\<lambda>j. map (\<lambda>i. (i, j)) (filter (\<lambda>i. entry X i j \<noteq> None) [0 ..< rows X]))
                      [0 ..< cols X]))"

text \<open>Modelled from the spec: a structural zero is treated as exactly zero.\<close>

definition val :: "'a::zero option \<Rightarrow> 'a" where
  "val c = (case c of None \<Rightarrow> 0 | Some v \<Rightarrow> v)"

text \<open>Modelled from the spec: the value without rows and columns.\<close>

definition empty_matrix :: "'a matrix" where
  "empty_matrix = \<lparr>rows = 0, cols = 0, cells = []\<rparr>"

subsection \<open>Concatenation\<close>

text \<open>
  Modelled from the spec: what a raw concatenation does with its operands, one
  event for each: it reads the shape of the operand at an index of the list, or it
  copies the data of that operand into the result.
\<close>

datatype step = Read_shape nat | Copy_data nat

text \<open>
  Modelled from the spec: the shape check of a raw concatenation. The shapes of the
  operands are read in input order, from the index \<open>i\<close>, and compared with the
  count \<open>r\<close> of the first operand in the dimension \<open>dim\<close> (\<open>rows\<close> or \<open>cols\<close>); a
  mismatch is raised immediately upon reading the mismatching shape, so the check
  stops there, with no later operand read.
\<close>

fun check_shapes :: "('a matrix \<Rightarrow> nat) \<Rightarrow> nat \<Rightarrow> nat \<Rightarrow> 'a matrix list \<Rightarrow> step list \<times> bool" where
  "check_shapes dim r i [] = ([], True)"
| "check_shapes dim r i (y # ys) =
     (if dim y = r
      then (case check_shapes dim r (i + 1) ys of (t, ok) \<Rightarrow> (Read_shape i # t, ok))
      else ([Read_shape i], False))"

text \<open>
  Modelled from the spec: raw-horzcat with its steps. All elements must have equal
  row count \<open>r\<close>; \<open>ShapeMismatch\<close> if row counts differ, raised before any data
  is copied; otherwise the data of every operand is copied, and the result has
  \<open>r\<close> rows and the sum of the columns, the columns of the inputs in input order.
  The specification leaves the empty list to the representation: here it gives
  the value without rows and columns.
\<close>

definition mat_horzcat_steps :: "'a matrix list \<Rightarrow> step list \<times> (error + 'a matrix)" where
  "mat_horzcat_steps v =
     (case v of
        [] \<Rightarrow> ([], Inr empty_matrix)
      | x # xs \<Rightarrow>
          (case check_shapes rows (rows x) 1 xs of
             (t, ok) \<Rightarrow>
               if ok
               then (Read_shape 0 # t @ map Copy_data [0 ..< length v],
                     Inr \<lparr>rows = rows x, cols = sum_list (map cols v),
                          cells = concat (map cells v)\<rparr>)
               else (Read_shape 0 # t, Inl ShapeMismatch)))"

text \<open>Modelled from the spec: raw-horzcat, the value returned or the error raised.\<close>

definition mat_horzcat :: "'a matrix list \<Rightarrow> error + 'a matrix" where
  "mat_horzcat v = snd (mat_horzcat_steps v)"

text \<open>
  Modelled from the spec: raw-vertcat with its steps, symmetric, with the
  constraint on the column count: column \<open>j\<close> of the result is column \<open>j\<close> of
  each input, one below the other.
\<close>

definition mat_vertcat_steps :: "'a matrix list \<Rightarrow> step list \<times> (error + 'a matrix)" where
  "mat_vertcat_steps v =
     (case v of
        [] \<Rightarrow> ([], Inr empty_matrix)
      | x # xs \<Rightarrow>
          (case check_shapes cols (cols x) 1 xs of
             (t, ok) \<Rightarrow>
               if ok
               then (Read_shape 0 # t @ map Copy_data [0 ..< length v],
                     Inr \<lparr>rows = sum_list (map rows v), cols = cols x,
                          cells = map (\<lambda>j. concat (map (\<lambda>y. cells y ! j) v)) [0 ..< cols x]\<rparr>)
               else (Read_shape 0 # t, Inl ShapeMismatch)))"

text \<open>Modelled from the spec: raw-vertcat, the value returned or the error raised.\<close>

definition mat_vertcat :: "'a matrix list \<Rightarrow> error + 'a matrix" where
  "mat_vertcat v = snd (mat_vertcat_steps v)"

subsection \<open>Splitting\<close>

text \<open>
  Modelled from the spec: the offset sequence \<open>[o0, \<dots>, ok]\<close> with \<open>o0 = 0\<close> and
  non-decreasing boundaries within the dimension of size \<open>n\<close>.
\<close>

definition valid_offsets :: "nat \<Rightarrow> int list \<Rightarrow> bool" where
  "valid_offsets n offset \<longleftrightarrow>
     offset \<noteq> [] \<and> offset ! 0 = 0 \<and> sorted offset \<and> list_all (\<lambda>b. b \<le> int n) offset"

text \<open>
  Modelled from the spec: for offsets \<open>[o0, \<dots>, ok]\<close> there are \<open>k\<close> groups, the
  \<open>i\<close>-th the range \<open>[o_i, o_{i+1})\<close>, and the last group runs to the end \<open>n\<close> of
  the dimension.
\<close>

fun group_bounds :: "nat list \<Rightarrow> nat \<Rightarrow> (nat \<times> nat) list" where
  "group_bounds [a, b] n = [(a, n)]"
| "group_bounds (a # b # os) n = (a, b) # group_bounds (b # os) n"
| "group_bounds os n = []"

text \<open>Modelled from the spec: the contiguous range \<open>[a, b)\<close> of a list.\<close>

definition slice :: "nat \<Rightarrow> nat \<Rightarrow> 'b list \<Rightarrow> 'b list" where
  "slice a b xs = take (b - a) (drop a xs)"

text \<open>
  Modelled from the spec: raw-horzsplit, one value for each group of columns.
  Out-of-range or decreasing boundaries are a contract violation; the specification
  names no kind of error for it, and \<open>InvalidArgument\<close> stands for it here.
\<close>

definition mat_horzsplit :: "'a matrix \<Rightarrow> int list \<Rightarrow> error + 'a matrix list" where
  "mat_horzsplit X offset =
     (if \<not> valid_offsets (cols X) offset then Inl InvalidArgument
      else Inr (map (\<lambda>(a, b). \<lparr>rows = rows X, cols = b - a, cells = slice a b (cells X)\<rparr>)
                    (group_bounds (map nat offset) (cols X))))"

text \<open>Modelled from the spec: raw-vertsplit, one value for each group of rows.\<close>

definition mat_vertsplit :: "'a matrix \<Rightarrow> int list \<Rightarrow> error + 'a matrix list" where
  "mat_vertsplit X offset =
     (if \<not> valid_offsets (rows X) offset then Inl InvalidArgument
      else Inr (map (\<lambda>(a, b). \<lparr>rows = b - a, cols = cols X, cells = map (slice a b) (cells X)\<rparr>)
                    (group_bounds (map nat offset) (rows X))))"

subsection \<open>Block diagonal\<close>

text \<open>
  Modelled from the spec: raw-blkdiag. The columns of each input, in input order,
  with structural zeros above (the rows of the inputs before it) and below.
\<close>

fun blkdiag_cols :: "nat \<Rightarrow> nat \<Rightarrow> 'a matrix list \<Rightarrow> 'a option list list" where
  "blkdiag_cols n r0 [] = []"
| "blkdiag_cols n r0 (X # Xs) =
     map (\<lambda>c. replicate r0 None @ c @ replicate (n - r0 - rows X) None) (cells X)
     @ blkdiag_cols n (r0 + rows X) Xs"

definition mat_blkdiag :: "'a matrix list \<Rightarrow> error + 'a matrix" where
  "mat_blkdiag A =
     Inr \<lparr>rows = sum_list (map rows A), cols = sum_list (map cols A),
          cells = blkdiag_cols (sum_list (map rows A)) 0 A\<rparr>"

subsection \<open>Transpose\<close>

text \<open>
  Modelled from the spec: raw-transpose. Rows and columns are swapped and the
  position \<open>(i, j)\<close> maps to \<open>(j, i)\<close>: column \<open>i\<close> of the result is row \<open>i\<close> of \<open>X\<close>.
\<close>

definition mat_T :: "'a matrix \<Rightarrow> 'a matrix" where
  "mat_T X =
     \<lparr>rows = cols X, cols = rows X,
      cells = map (\<lambda>i. map (\<lambda>c. c ! i) (cells X)) [0 ..< rows X]\<rparr>"

subsection \<open>Products\<close>

text \<open>
  Modelled from the spec: one entry of the binary product. A position is
  structurally nonzero if some contributing term could be nonzero, that is, if for
  some \<open>k\<close> both \<open>X(i, k)\<close> and \<open>Y(k, j)\<close> are in the patterns; its value is the sum of
  these terms.
\<close>

definition product_entry :: "'a::semiring_0 matrix \<Rightarrow> 'a matrix \<Rightarrow> nat \<Rightarrow> nat \<Rightarrow> 'a option" where
  "product_entry X Y i j =
     (let ks = filter (\<lambda>k. entry X i k \<noteq> None \<and> entry Y k j \<noteq> None) [0 ..< cols X]
      in if ks = [] then None
         else Some (sum_list (map (\<lambda>k. val (entry X i k) * val (entry Y k j)) ks)))"

text \<open>
  Modelled from the spec: the binary raw-matrix-product. \<open>X.cols\<close> must equal
  \<open>Y.rows\<close>, else \<open>ShapeMismatch\<close>; the result has shape \<open>X.rows \<times> Y.cols\<close>.
\<close>

definition mat_mtimes :: "'a::semiring_0 matrix \<Rightarrow> 'a matrix \<Rightarrow> error + 'a matrix" where
  "mat_mtimes X Y =
     (if cols X \<noteq> rows Y then Inl ShapeMismatch
      else Inr \<lparr>rows = rows X, cols = cols Y,
                cells = map (\<lambda>j. map (\<lambda>i. product_entry X Y i j) [0 ..< rows X]) [0 ..< cols Y]\<rparr>)"

text \<open>
  Modelled from the spec: the restriction of \<open>P\<close> to the sparsity pattern of \<open>Z\<close>.
  Entries of \<open>P\<close> outside the pattern of \<open>Z\<close> are discarded.
\<close>

definition mask_pattern :: "'a matrix \<Rightarrow> 'a matrix \<Rightarrow> 'a matrix" where
  "mask_pattern P Z =
     \<lparr>rows = rows P, cols = cols P,
      cells = map (\<lambda>j. map (\<lambda>i. if entry Z i j = None then None else entry P i j) [0 ..< rows P])
                  [0 ..< cols P]\<rparr>"

text \<open>
  Modelled from the spec: elementwise addition of two cells. A position is in the
  pattern of the sum when it is in the pattern of a summand.
\<close>

fun add_entry :: "'a::semiring_0 option \<Rightarrow> 'a option \<Rightarrow> 'a option" where
  "add_entry None None = None"
| "add_entry (Some a) None = Some a"
| "add_entry None (Some b) = Some b"
| "add_entry (Some a) (Some b) = Some (a + b)"

text \<open>Modelled from the spec: elementwise addition of two values of equal shape.\<close>

definition mat_add :: "'a::semiring_0 matrix \<Rightarrow> 'a matrix \<Rightarrow> error + 'a matrix" where
  "mat_add X Y =
     (if rows X \<noteq> rows Y \<or> cols X \<noteq> cols Y then Inl ShapeMismatch
      else Inr \<lparr>rows = rows X, cols = cols X,
                cells = map (\<lambda>j. map (\<lambda>i. add_entry (entry X i j) (entry Y i j)) [0 ..< rows X])
                            [0 ..< cols X]\<rparr>)"

text \<open>
  Modelled from the spec: the masked-accumulate raw-matrix-product. It computes
  \<open>X\<cdot>Y\<close>, restricts the output to the sparsity pattern of \<open>Z\<close>, then adds
  elementwise to \<open>Z\<close>. \<open>X.cols\<close> must equal \<open>Y.rows\<close> and the product shape must
  equal the shape of \<open>Z\<close>, else \<open>ShapeMismatch\<close>.
\<close>

definition mat_mtimes3 :: "'a::semiring_0 matrix \<Rightarrow> 'a matrix \<Rightarrow> 'a matrix \<Rightarrow> error + 'a matrix" where
  "mat_mtimes3 X Y Z =
     (case mat_mtimes X Y of
        Inl e \<Rightarrow> Inl e
      | Inr P \<Rightarrow>
          if rows P \<noteq> rows Z \<or> cols P \<noteq> cols Z then Inl ShapeMismatch
          else mat_add Z (mask_pattern P Z))"

text \<open>
  Modelled from the spec: the entry \<open>(i, j)\<close> of the product \<open>X\<cdot>Y\<close> of linear
  algebra, every structural zero counted as zero.
\<close>

definition dot :: "'a::semiring_0 matrix \<Rightarrow> 'a matrix \<Rightarrow> nat \<Rightarrow> nat \<Rightarrow> 'a" where
  "dot X Y i j = sum_list (map (\<lambda>k. val (entry X i k) * val (entry Y k j)) [0 ..< cols X])"

subsection \<open>The contract, instantiated\<close>

text \<open>Modelled from the spec: the members of the contract for the value above.\<close>

definition matrix_type :: "'a::semiring_0 matrix MatType" where
  "matrix_type =
     \<lparr>default_ctor = empty_matrix,
      size1 = (\<lambda>X. int (rows X)),
      size2 = (\<lambda>X. int (cols X)),
      zz_horzcat = mat_horzcat,
      zz_vertcat = mat_vertcat,
      zz_horzsplit = mat_horzsplit,
      zz_vertsplit = mat_vertsplit,
      zz_blkdiag = mat_blkdiag,
      zz_mtimes = mat_mtimes,
      zz_mtimes3 = mat_mtimes3,
      T = (\<lambda>X. Inr (mat_T X))\<rparr>"


subsection \<open>Values used as concrete inputs\<close>

definition example_X :: "int matrix" where
  "example_X = \<lparr>rows = 2, cols = 3, cells = [[Some 1, None], [None, None], [Some 5, Some 6]]\<rparr>"

definition example_Y :: "int matrix" where
  "example_Y =
     \<lparr>rows = 3, cols = 3,
      cells = [[Some 1, None, None], [None, Some 2, None], [None, None, Some 3]]\<rparr>"

definition example_Z :: "int matrix" where
  "example_Z = \<lparr>rows = 2, cols = 2, cells = [[Some 10, None], [None, None]]\<rparr>"

definition example_D :: "int matrix" where
  "example_D = \<lparr>rows = 2, cols = 2, cells = [[Some 1, Some 2], [Some 3, Some 4]]\<rparr>"

definition example_E :: "int matrix" where
  "example_E = \<lparr>rows = 0, cols = 3, cells = [[], [], []]\<rparr>"


section \<open>Properties\<close>

subsection \<open>The shape check of a concatenation\<close>

lemma check_shapes_ok:
  "snd (check_shapes dim r i ys) \<longleftrightarrow> list_all (\<lambda>y. dim y = r) ys"
  by (induction ys arbitrary: i) (simp_all add: split_def)

lemma check_shapes_reads_all:
  "snd (check_shapes dim r i ys) \<Longrightarrow>
   fst (check_shapes dim r i ys) = map Read_shape [i ..< i + length ys]"
proof (induction ys arbitrary: i)
  case Nil
  then show ?case by simp
next
  case (Cons y ys)
  from Cons.prems have y: "dim y = r" and rest: "snd (check_shapes dim r (i + 1) ys)"
    by (simp_all add: split_def split: if_splits)
  have "[i ..< i + length (y # ys)] = i # [i + 1 ..< i + 1 + length ys]"
    using upt_conv_Cons[of i "i + Suc (length ys)"] by (simp del: upt_Suc)
  with Cons.IH[OF rest] y show ?case by (simp add: split_def)
qed

lemma check_shapes_stops:
  "\<not> snd (check_shapes dim r i ys) \<Longrightarrow>
   \<exists>k<length ys. dim (ys ! k) \<noteq> r \<and> (\<forall>j<k. dim (ys ! j) = r)
      \<and> fst (check_shapes dim r i ys) = map Read_shape [i ..< i + Suc k]"
proof (induction ys arbitrary: i)
  case Nil
  then show ?case by simp
next
  case (Cons y ys)
  show ?case
  proof (cases "dim y = r")
    case False
    then have "fst (check_shapes dim r i (y # ys)) = map Read_shape [i ..< i + Suc 0]"
      by simp
    with False show ?thesis by (intro exI[of _ 0]) simp
  next
    case True
    with Cons.prems have "\<not> snd (check_shapes dim r (i + 1) ys)"
      by (simp add: split_def)
    from Cons.IH[OF this] obtain k where k: "k < length ys" "dim (ys ! k) \<noteq> r"
      "\<forall>j<k. dim (ys ! j) = r"
      "fst (check_shapes dim r (i + 1) ys) = map Read_shape [i + 1 ..< i + 1 + Suc k]"
      by blast
    have "\<forall>j<Suc k. dim ((y # ys) ! j) = r"
      using True k(3) by (simp add: nth_Cons split: nat.splits)
    moreover have "fst (check_shapes dim r i (y # ys)) = map Read_shape [i ..< i + Suc (Suc k)]"
      using True k(4) upt_conv_Cons[of i "i + Suc (Suc k)"] by (simp add: split_def del: upt_Suc)
    ultimately show ?thesis using k(1,2) by (intro exI[of _ "Suc k"]) simp
  qed
qed

lemma mat_horzcat_closed:
  "mat_horzcat v =
     (case v of
        [] \<Rightarrow> Inr empty_matrix
      | x # xs \<Rightarrow>
          if list_all (\<lambda>y. rows y = rows x) xs
          then Inr \<lparr>rows = rows x, cols = sum_list (map cols v), cells = concat (map cells v)\<rparr>
          else Inl ShapeMismatch)"
  by (simp add: mat_horzcat_def mat_horzcat_steps_def split_def check_shapes_ok split: list.splits)

lemma mat_vertcat_closed:
  "mat_vertcat v =
     (case v of
        [] \<Rightarrow> Inr empty_matrix
      | x # xs \<Rightarrow>
          if list_all (\<lambda>y. cols y = cols x) xs
          then Inr \<lparr>rows = sum_list (map rows v), cols = cols x,
                    cells = map (\<lambda>j. concat (map (\<lambda>y. cells y ! j) v)) [0 ..< cols x]\<rparr>
          else Inl ShapeMismatch)"
  by (simp add: mat_vertcat_def mat_vertcat_steps_def split_def check_shapes_ok split: list.splits)


lemma read_shapes_from_0: "Read_shape 0 # map Read_shape [1 ..< Suc k] = map Read_shape [0 ..< Suc k]"
proof -
  have "[0 ..< Suc k] = 0 # [1 ..< Suc k]"
    using upt_conv_Cons[of 0 "Suc k"] by (simp only: zero_less_Suc One_nat_def)
  then show ?thesis by (simp only: list.map)
qed

lemma check_first_mismatch:
  assumes "a \<in> set (x # xs)" "b \<in> set (x # xs)" "dim a \<noteq> dim b"
  shows "\<exists>k. 0 < k \<and> k < length (x # xs) \<and> dim ((x # xs) ! k) \<noteq> dim x
            \<and> (\<forall>i<k. dim ((x # xs) ! i) = dim x)
            \<and> check_shapes dim (dim x) 1 xs = (map Read_shape [1 ..< Suc k], False)"
proof -
  have "\<not> list_all (\<lambda>y. dim y = dim x) xs"
  proof
    assume "list_all (\<lambda>y. dim y = dim x) xs"
    then have all: "\<forall>y\<in>set (x # xs). dim y = dim x" by (simp add: list_all_iff)
    from all assms(1) have "dim a = dim x" by blast
    moreover from all assms(2) have "dim b = dim x" by blast
    ultimately show False using assms(3) by simp
  qed
  then have n: "\<not> snd (check_shapes dim (dim x) 1 xs)" by (simp add: check_shapes_ok)
  from check_shapes_stops[OF n] obtain k where k: "k < length xs" "dim (xs ! k) \<noteq> dim x"
    "\<forall>j<k. dim (xs ! j) = dim x"
    "fst (check_shapes dim (dim x) 1 xs) = map Read_shape [1 ..< 1 + Suc k]"
    by blast
  have a: "\<forall>i<Suc k. dim ((x # xs) ! i) = dim x"
  proof (intro allI impI)
    fix i assume "i < Suc k"
    then show "dim ((x # xs) ! i) = dim x"
      using k(3) by (cases i) simp_all
  qed
  have "1 + Suc k = Suc (Suc k)" by simp
  with k(4) have f: "fst (check_shapes dim (dim x) 1 xs) = map Read_shape [1 ..< Suc (Suc k)]"
    by (simp only:)
  from n have s: "snd (check_shapes dim (dim x) 1 xs) = False" by (simp only: simp_thms)
  have c: "check_shapes dim (dim x) 1 xs = (map Read_shape [1 ..< Suc (Suc k)], False)"
    using f s by (simp only: prod_eq_iff fst_conv snd_conv simp_thms)
  have "0 < Suc k \<and> Suc k < length (x # xs) \<and> dim ((x # xs) ! Suc k) \<noteq> dim x"
    using k(1,2) by simp
  with a c show ?thesis by blast
qed

lemma horzcat_steps_mismatch:
  assumes "a \<in> set v" "b \<in> set v" "rows a \<noteq> rows b"
  shows "\<exists>k. 0 < k \<and> k < length v \<and> rows (v ! k) \<noteq> rows (v ! 0)
            \<and> (\<forall>i<k. rows (v ! i) = rows (v ! 0))
            \<and> mat_horzcat_steps v = (map Read_shape [0 ..< Suc k], Inl ShapeMismatch)"
proof (cases v)
  case Nil
  with assms show ?thesis by simp
next
  case (Cons x xs)
  from check_first_mismatch[of a x xs b rows] assms Cons obtain k where
    k: "0 < k" "k < length v" "rows (v ! k) \<noteq> rows x" "\<forall>i<k. rows (v ! i) = rows x"
       "check_shapes rows (rows x) 1 xs = (map Read_shape [1 ..< Suc k], False)"
    by auto
  have "mat_horzcat_steps v = (map Read_shape [0 ..< Suc k], Inl ShapeMismatch)"
    using k(5) Cons read_shapes_from_0[of k] by (simp add: mat_horzcat_steps_def del: upt_Suc)
  with k(1-4) Cons show ?thesis by (intro exI[of _ k]) simp
qed

lemma vertcat_steps_mismatch:
  assumes "a \<in> set v" "b \<in> set v" "cols a \<noteq> cols b"
  shows "\<exists>k. 0 < k \<and> k < length v \<and> cols (v ! k) \<noteq> cols (v ! 0)
            \<and> (\<forall>i<k. cols (v ! i) = cols (v ! 0))
            \<and> mat_vertcat_steps v = (map Read_shape [0 ..< Suc k], Inl ShapeMismatch)"
proof (cases v)
  case Nil
  with assms show ?thesis by simp
next
  case (Cons x xs)
  from check_first_mismatch[of a x xs b cols] assms Cons obtain k where
    k: "0 < k" "k < length v" "cols (v ! k) \<noteq> cols x" "\<forall>i<k. cols (v ! i) = cols x"
       "check_shapes cols (cols x) 1 xs = (map Read_shape [1 ..< Suc k], False)"
    by auto
  have "mat_vertcat_steps v = (map Read_shape [0 ..< Suc k], Inl ShapeMismatch)"
    using k(5) Cons read_shapes_from_0[of k] by (simp add: mat_vertcat_steps_def del: upt_Suc)
  with k(1-4) Cons show ?thesis by (intro exI[of _ k]) simp
qed

lemma horzcat_steps_copies:
  assumes "mat_horzcat (x # xs) = Inr R"
  shows "fst (mat_horzcat_steps (x # xs))
         = map Read_shape [0 ..< Suc (length xs)] @ map Copy_data [0 ..< Suc (length xs)]"
proof -
  from assms have ok: "snd (check_shapes rows (rows x) 1 xs)"
    by (simp add: mat_horzcat_def mat_horzcat_steps_def split_def split: if_splits)
  from check_shapes_reads_all[OF ok] read_shapes_from_0[of "length xs"] ok
  show ?thesis by (simp add: mat_horzcat_steps_def split_def del: upt_Suc)
qed

lemma vertcat_steps_copies:
  assumes "mat_vertcat (x # xs) = Inr R"
  shows "fst (mat_vertcat_steps (x # xs))
         = map Read_shape [0 ..< Suc (length xs)] @ map Copy_data [0 ..< Suc (length xs)]"
proof -
  from assms have ok: "snd (check_shapes cols (cols x) 1 xs)"
    by (simp add: mat_vertcat_def mat_vertcat_steps_def split_def split: if_splits)
  from check_shapes_reads_all[OF ok] read_shapes_from_0[of "length xs"] ok
  show ?thesis by (simp add: mat_vertcat_steps_def split_def del: upt_Suc)
qed

subsection \<open>The helper \<open>range_int\<close>\<close>

text \<open>
  The closed form of \<open>range_int\<close> is the loop that starts at \<open>start\<close> and adds
  \<open>step\<close> while the value is below \<open>stop\<close>.
\<close>

lemma range_count_step:
  assumes s: "1 \<le> step" and lt: "start < stop"
  shows "nat ((stop - start + step - 1) div step) = Suc (nat ((stop - (start + step) + step - 1) div step))"
proof -
  have "stop - start + step - 1 = (stop - (start + step) + step - 1) + step" by simp
  then have "(stop - start + step - 1) div step = (stop - (start + step) + step - 1) div step + 1"
    using s by (metis div_add_self2 not_one_le_zero)
  moreover have "0 \<le> (stop - (start + step) + step - 1) div step"
    using s lt by (simp add: pos_imp_zdiv_nonneg_iff)
  ultimately show ?thesis by linarith
qed

lemma range_count_zero:
  assumes s: "1 \<le> step" and lt: "\<not> start < stop"
  shows "nat ((stop - start + step - 1) div step) = 0"
proof -
  have "stop - start + step - 1 < step" using lt by simp
  then have "(stop - start + step - 1) div step \<le> 0"
    using s by (simp add: div_nonpos_pos_le0 pos_imp_zdiv_pos_iff flip: not_less)
  then show ?thesis by simp
qed

lemma range_int_rec:
  assumes s: "1 \<le> step"
  shows "range_int start stop step =
     (if start < stop then start # range_int (start + step) stop step else [])"
proof (cases "start < stop")
  case False
  then show ?thesis using range_count_zero[OF s False] by (simp add: range_int_def)
next
  case True
  have "map (\<lambda>k. start + int k * step) [0..<Suc m] =
        start # map (\<lambda>k. start + step + int k * step) [0..<m]" for m
  proof -
    have "[0..<Suc m] = 0 # map Suc [0..<m]"
      by (simp only: upt_conv_Cons[OF zero_less_Suc] map_Suc_upt)
    then show ?thesis by (simp add: algebra_simps o_def)
  qed
  then show ?thesis using True range_count_step[OF s True] by (simp only: range_int_def if_True)
qed

lemma range_int_one: "0 \<le> n \<Longrightarrow> range_int 0 n 1 @ [n] = [0..n]"
proof -
  assume n: "0 \<le> n"
  have "map int [0..<Suc k] = [0..int k]" for k
  proof (induction k)
    case 0 show ?case by (simp add: upto.simps)
  next
    case (Suc k)
    have "[0..int (Suc k)] = [0..int k] @ [int (Suc k)]"
      using upto_rec2[of 0 "int (Suc k)"] by simp
    with Suc show ?case by simp
  qed
  from this[of "nat n"] n show ?thesis by (simp add: range_int_def)
qed

subsection \<open>The loop of the n-ary product\<close>

lemma bind_outcome_Inl [simp]: "bind_outcome (t, Inl e) f = (t, Inl e)"
  by (simp add: bind_outcome_def)

lemma bind_outcome_Inr: "bind_outcome (t, Inr a) f = (t @ fst (f a), snd (f a))"
  by (simp add: bind_outcome_def split: prod.splits)

lemma foldl_bind_Inl:
  "foldl (\<lambda>result e. bind_outcome result (g e)) (t, Inl err) es = (t, Inl err)"
  by (induction es) simp_all

lemma mul_loop_foldl:
  "(t0 @ fst (mul_loop M args i ret), snd (mul_loop M args i ret)) =
   foldl (\<lambda>result e. bind_outcome result (\<lambda>r. mul M r e)) (t0, Inr ret) (drop i args)"
proof (induction M args i ret arbitrary: t0 rule: mul_loop.induct)
  case (1 M args i ret)
  show ?case
  proof (cases "i < length args")
    case False
    then show ?thesis by (simp add: mul_loop.simps[of M args i ret])
  next
    case True
    then have d: "drop i args = args ! i # drop (i + 1) args"
      by (simp add: Cons_nth_drop_Suc)
    obtain t r where m: "mul M ret (args ! i) = (t, r)" by (cases "mul M ret (args ! i)")
    show ?thesis
    proof (cases r)
      case (Inl e)
      with True m d show ?thesis
        by (simp add: mul_loop.simps[of M args i ret] bind_outcome_Inr foldl_bind_Inl)
    next
      case (Inr r')
      from "1.IH"[OF True m[symmetric] Inr, of "t0 @ t"] True m Inr d show ?thesis
        by (simp add: mul_loop.simps[of M args i ret] bind_outcome_Inr case_prod_beta)
    qed
  qed
qed


subsection \<open>Groups of an offset sequence\<close>




lemma sorted_map_nat: "sorted xs \<Longrightarrow> sorted (map nat xs)"
  by (induction xs) auto




lemma mat_T_involution:
  assumes wf: "wf_matrix X"
  shows "mat_T (mat_T X) = X"
proof -
  have len: "length (cells X) = cols X" using wf by (simp add: wf_matrix_def)
  have col: "length (cells X ! j) = rows X" if "j < cols X" for j
    using wf that by (simp add: wf_matrix_def list_all_length)
  have "map (\<lambda>j. map (\<lambda>c. c ! j) (map (\<lambda>i. map (\<lambda>c. c ! i) (cells X)) [0 ..< rows X])) [0 ..< cols X]
        = cells X"
  proof (rule nth_equalityI)
    show "length (map (\<lambda>j. map (\<lambda>c. c ! j) (map (\<lambda>i. map (\<lambda>c. c ! i) (cells X)) [0 ..< rows X])) [0 ..< cols X])
          = length (cells X)"
      using len by simp
  next
    fix j assume "j < length (map (\<lambda>j. map (\<lambda>c. c ! j) (map (\<lambda>i. map (\<lambda>c. c ! i) (cells X)) [0 ..< rows X])) [0 ..< cols X])"
    then have j: "j < cols X" by simp
    have "map (\<lambda>c. c ! j) (map (\<lambda>i. map (\<lambda>c. c ! i) (cells X)) [0 ..< rows X])
          = map (\<lambda>i. cells X ! j ! i) [0 ..< rows X]"
      using j len by simp
    also have "\<dots> = cells X ! j"
      using map_nth[of "cells X ! j"] col[OF j] by simp
    finally show "map (\<lambda>j. map (\<lambda>c. c ! j) (map (\<lambda>i. map (\<lambda>c. c ! i) (cells X)) [0 ..< rows X])) [0 ..< cols X] ! j
          = cells X ! j"
      using j by simp
  qed
  then show ?thesis by (simp add: mat_T_def)
qed

subsection \<open>Shape checks and the masked product\<close>

lemma entry_mat_T: "wf_matrix X \<Longrightarrow> entry (mat_T X) j i = entry X i j"
  by (simp add: entry_def mat_T_def wf_matrix_def)

lemma horzcat_mismatch:
  assumes "a \<in> set v" "b \<in> set v" "rows a \<noteq> rows b"
  shows "mat_horzcat v = Inl ShapeMismatch"
proof (cases v)
  case Nil
  with assms show ?thesis by simp
next
  case (Cons x xs)
  have "\<not> list_all (\<lambda>y. rows y = rows x) xs"
  proof
    assume "list_all (\<lambda>y. rows y = rows x) xs"
    then have "\<forall>y\<in>set v. rows y = rows x" using Cons by (simp add: list_all_iff)
    with assms show False by simp
  qed
  with Cons show ?thesis by (simp add: mat_horzcat_closed)
qed

lemma vertcat_mismatch:
  assumes "a \<in> set v" "b \<in> set v" "cols a \<noteq> cols b"
  shows "mat_vertcat v = Inl ShapeMismatch"
proof (cases v)
  case Nil
  with assms show ?thesis by simp
next
  case (Cons x xs)
  have "\<not> list_all (\<lambda>y. cols y = cols x) xs"
  proof
    assume "list_all (\<lambda>y. cols y = cols x) xs"
    then have "\<forall>y\<in>set v. cols y = cols x" using Cons by (simp add: list_all_iff)
    with assms show False by simp
  qed
  with Cons show ?thesis by (simp add: mat_vertcat_closed)
qed

lemma sum_list_filter_zero:
  "(\<And>x. x \<in> set xs \<Longrightarrow> \<not> P x \<Longrightarrow> f x = (0::'a::monoid_add)) \<Longrightarrow>
   sum_list (map f (filter P xs)) = sum_list (map f xs)"
  by (induction xs) auto

lemma val_product_entry: "val (product_entry X Y i j) = dot X Y i j"
proof -
  let ?P = "\<lambda>k. entry X i k \<noteq> None \<and> entry Y k j \<noteq> None"
  let ?f = "\<lambda>k. val (entry X i k) * val (entry Y k j)"
  have z: "?f k = 0" if "\<not> ?P k" for k
    using that by (auto simp: val_def)
  have "sum_list (map ?f (filter ?P [0 ..< cols X])) = dot X Y i j"
    unfolding dot_def by (rule sum_list_filter_zero) (use z in blast)
  then show ?thesis
    by (cases "filter ?P [0 ..< cols X] = []") (simp_all add: product_entry_def Let_def val_def)
qed

lemma entry_table:
  "entry \<lparr>rows = r, cols = c, cells = map (\<lambda>j. map (\<lambda>i. f i j) [0 ..< r]) [0 ..< c]\<rparr> i j
   = (if i < r \<and> j < c then f i j else None)"
  by (simp add: entry_def)

lemma in_pattern: "(i, j) \<in> pattern X \<longleftrightarrow> entry X i j \<noteq> None"
proof -
  have "(i, j) \<in> pattern X \<longleftrightarrow> (j < cols X \<and> i < rows X \<and> entry X i j \<noteq> None)"
    by (auto simp: pattern_def image_iff)
  also have "\<dots> \<longleftrightarrow> entry X i j \<noteq> None"
    by (simp add: entry_def)
  finally show ?thesis .
qed

lemma add_entry_Some: "add_entry (Some z) c = Some (z + val c)"
  by (cases c) (simp_all add: val_def)

lemma mat_mtimes3_entries:
  assumes "cols X = rows Y" "rows X = rows Z" "cols Y = cols Z"
  shows "\<exists>P R. mat_mtimes X Y = Inr P \<and> mat_mtimes3 X Y Z = Inr R \<and> mat_add Z (mask_pattern P Z) = Inr R
     \<and> rows R = rows Z \<and> cols R = cols Z \<and> wf_matrix R
     \<and> (\<forall>i j. entry R i j = (case entry Z i j of None \<Rightarrow> None | Some z \<Rightarrow> Some (z + dot X Y i j)))"
proof -
  let ?P = "\<lparr>rows = rows X, cols = cols Y,
      cells = map (\<lambda>j. map (\<lambda>i. product_entry X Y i j) [0 ..< rows X]) [0 ..< cols Y]\<rparr>"
  let ?R = "\<lparr>rows = rows Z, cols = cols Z,
      cells = map (\<lambda>j. map (\<lambda>i. add_entry (entry Z i j) (entry (mask_pattern ?P Z) i j)) [0 ..< rows Z])
                  [0 ..< cols Z]\<rparr>"
  have p: "mat_mtimes X Y = Inr ?P" using assms by (simp add: mat_mtimes_def)
  have a: "mat_add Z (mask_pattern ?P Z) = Inr ?R" using assms by (simp add: mat_add_def mask_pattern_def)
  have m: "mat_mtimes3 X Y Z = Inr ?R" using p a assms by (simp add: mat_mtimes3_def)
  have em: "entry (mask_pattern ?P Z) i j = (if entry Z i j = None then None else product_entry X Y i j)"
    for i j
    using assms by (simp add: mask_pattern_def entry_table) (simp add: entry_def)
  have e: "entry ?R i j = (case entry Z i j of None \<Rightarrow> None | Some z \<Rightarrow> Some (z + dot X Y i j))"
    for i j
  proof (cases "entry Z i j")
    case None
    then show ?thesis by (simp add: entry_table em)
  next
    case (Some z)
    then have "i < rows Z \<and> j < cols Z" by (simp add: entry_def split: if_splits)
    with Some show ?thesis
      by (simp add: entry_table em add_entry_Some val_product_entry)
  qed
  have w: "wf_matrix ?R" by (simp add: wf_matrix_def list_all_iff)
  from p a m e w show ?thesis by (intro exI[of _ ?P] exI[of _ ?R]) simp
qed

subsection \<open>The operations keep values rectangular\<close>

text \<open>
  Each operation of the representation returns rectangular values when it is given
  rectangular values, and a split returns one value for each group.
\<close>

lemma wf_mat_T: "wf_matrix X \<Longrightarrow> wf_matrix (mat_T X)"
  by (simp add: wf_matrix_def mat_T_def list_all_iff)

lemma wf_mat_horzcat:
  assumes "list_all wf_matrix v" and "mat_horzcat v = Inr R"
  shows "wf_matrix R"
proof (cases v)
  case Nil
  with assms show ?thesis by (auto simp: mat_horzcat_closed empty_matrix_def wf_matrix_def)
next
  case (Cons x xs)
  with assms(2) have same: "list_all (\<lambda>y. rows y = rows x) xs"
    and R: "R = \<lparr>rows = rows x, cols = sum_list (map cols v), cells = concat (map cells v)\<rparr>"
    by (auto simp: mat_horzcat_closed split: if_splits)
  have len: "length (concat (map cells v)) = sum_list (map cols v)"
    using assms(1) by (induction v) (simp_all add: wf_matrix_def)
  have "\<forall>y\<in>set v. rows y = rows x" using same Cons by (simp add: list_all_iff)
  then have "\<forall>c\<in>set (concat (map cells v)). length c = rows x"
    using assms(1) by (auto simp: wf_matrix_def list_all_iff)
  with len R show ?thesis by (simp add: wf_matrix_def list_all_iff)
qed

lemma wf_mat_vertcat:
  assumes "list_all wf_matrix v" and "mat_vertcat v = Inr R"
  shows "wf_matrix R"
proof (cases v)
  case Nil
  with assms show ?thesis by (auto simp: mat_vertcat_closed empty_matrix_def wf_matrix_def)
next
  case (Cons x xs)
  with assms(2) have same: "list_all (\<lambda>y. cols y = cols x) xs"
    and R: "R = \<lparr>rows = sum_list (map rows v), cols = cols x,
                  cells = map (\<lambda>j. concat (map (\<lambda>y. cells y ! j) v)) [0 ..< cols x]\<rparr>"
    by (auto simp: mat_vertcat_closed split: if_splits)
  have all: "\<forall>y\<in>set v. cols y = cols x" using same Cons by (simp add: list_all_iff)
  have "length (concat (map (\<lambda>y. cells y ! j) v)) = sum_list (map rows v)" if "j < cols x" for j
  proof -
    have "length (cells y ! j) = rows y" if "y \<in> set v" for y
    proof -
      from assms(1) that have "wf_matrix y" by (simp add: list_all_iff)
      moreover from all that have "cols y = cols x" by simp
      ultimately show ?thesis using \<open>j < cols x\<close> by (simp add: wf_matrix_def list_all_length)
    qed
    then have "\<forall>y\<in>set v. length (cells y ! j) = rows y" by blast
    then show ?thesis by (induction v) simp_all
  qed
  with R show ?thesis by (simp add: wf_matrix_def list_all_iff)
qed

lemma group_bounds_ordered:
  "sorted (a # os) \<Longrightarrow> \<forall>b\<in>set (a # os). b \<le> n \<Longrightarrow>
   \<forall>g\<in>set (group_bounds (a # os) n). fst g \<le> snd g \<and> snd g \<le> n"
proof (induction os arbitrary: a)
  case Nil
  then show ?case by simp
next
  case (Cons b os)
  show ?case
  proof (cases os)
    case Nil
    with Cons.prems show ?thesis by simp
  next
    case (Cons c os')
    with Cons.IH[of b] Cons.prems show ?thesis by simp
  qed
qed

lemma length_group_bounds: "length (group_bounds os n) = length os - 1"
  by (induction os n rule: group_bounds.induct) simp_all

lemma valid_offsets_groups:
  assumes "valid_offsets n offset"
  shows "\<forall>g\<in>set (group_bounds (map nat offset) n). fst g \<le> snd g \<and> snd g \<le> n"
proof -
  from assms obtain z zs where o: "offset = z # zs" by (cases offset) (auto simp: valid_offsets_def)
  have s: "sorted (map nat offset)"
    using assms by (simp add: valid_offsets_def sorted_map_nat)
  have b: "\<forall>b\<in>set (map nat offset). b \<le> n"
    using assms by (auto simp: valid_offsets_def list_all_iff)
  from group_bounds_ordered[of "nat z" "map nat zs" n] s b o show ?thesis by simp
qed

lemma wf_mat_horzsplit:
  assumes "wf_matrix X" and "mat_horzsplit X offset = Inr parts"
  shows "list_all wf_matrix parts \<and> length parts = length offset - 1"
proof -
  from assms(2) have v: "valid_offsets (cols X) offset"
    and p: "parts = map (\<lambda>(a, b). \<lparr>rows = rows X, cols = b - a, cells = slice a b (cells X)\<rparr>)
                    (group_bounds (map nat offset) (cols X))"
    by (auto simp: mat_horzsplit_def split: if_splits)
  have "wf_matrix \<lparr>rows = rows X, cols = snd g - fst g, cells = slice (fst g) (snd g) (cells X)\<rparr>"
    if "g \<in> set (group_bounds (map nat offset) (cols X))" for g
  proof -
    from valid_offsets_groups[OF v] that have "fst g \<le> snd g" "snd g \<le> cols X" by auto
    moreover have "set (slice (fst g) (snd g) (cells X)) \<subseteq> set (cells X)"
      by (auto simp: slice_def dest: in_set_takeD in_set_dropD)
    ultimately show ?thesis
      using assms(1) by (auto simp: wf_matrix_def list_all_iff slice_def)
  qed
  then show ?thesis by (simp add: p list_all_iff split_def length_group_bounds)
qed

lemma wf_mat_vertsplit:
  assumes "wf_matrix X" and "mat_vertsplit X offset = Inr parts"
  shows "list_all wf_matrix parts \<and> length parts = length offset - 1"
proof -
  from assms(2) have v: "valid_offsets (rows X) offset"
    and p: "parts = map (\<lambda>(a, b). \<lparr>rows = b - a, cols = cols X, cells = map (slice a b) (cells X)\<rparr>)
                    (group_bounds (map nat offset) (rows X))"
    by (auto simp: mat_vertsplit_def split: if_splits)
  have "wf_matrix \<lparr>rows = snd g - fst g, cols = cols X, cells = map (slice (fst g) (snd g)) (cells X)\<rparr>"
    if "g \<in> set (group_bounds (map nat offset) (rows X))" for g
  proof -
    from valid_offsets_groups[OF v] that have g: "fst g \<le> snd g" "snd g \<le> rows X" by auto
    have "length (slice (fst g) (snd g) c) = snd g - fst g" if "length c = rows X" for c :: "'a option list"
      using g that by (simp add: slice_def)
    then show ?thesis
      using assms(1) by (simp add: wf_matrix_def list_all_iff)
  qed
  then show ?thesis by (simp add: p list_all_iff split_def length_group_bounds)
qed

subsection \<open>A split without groups\<close>

text \<open>
  When the split of two different values returns the empty list for both, the
  concatenation receives the same argument twice, and whatever a representation
  returns for the empty list, it is not both values.
\<close>

lemma no_group_no_roundtrip:
  assumes "zz_horzsplit M x offset = Inr []" "zz_horzsplit M y offset = Inr []" "x \<noteq> y"
  shows "\<not> (snd (bind_outcome (horzsplit M x offset) (horzcat M)) = Inr x
          \<and> snd (bind_outcome (horzsplit M y offset) (horzcat M)) = Inr y)"
proof
  assume both: "snd (bind_outcome (horzsplit M x offset) (horzcat M)) = Inr x
          \<and> snd (bind_outcome (horzsplit M y offset) (horzcat M)) = Inr y"
  have x: "snd (bind_outcome (horzsplit M x offset) (horzcat M)) = zz_horzcat M []"
    using assms(1) by (simp add: bind_outcome_def horzsplit_def horzcat_def)
  have y: "snd (bind_outcome (horzsplit M y offset) (horzcat M)) = zz_horzcat M []"
    using assms(2) by (simp add: bind_outcome_def horzsplit_def horzcat_def)
  from both have "zz_horzcat M [] = Inr x" "zz_horzcat M [] = Inr y"
    unfolding x y by blast+
  then have "x = y" by (simp only: sum.inject)
  with assms(3) show False by (rule notE)
qed

subsection \<open>The example values are rectangular\<close>

lemma wf_example_X: "wf_matrix example_X"
  by (simp add: wf_matrix_def example_X_def)

lemma wf_example_E: "wf_matrix example_E"
  by (simp add: wf_matrix_def example_E_def)


subsection \<open>The pattern of a transpose\<close>

lemma pattern_mat_T:
  assumes "wf_matrix X"
  shows "pattern (mat_T X) = (\<lambda>(i, j). (j, i)) ` pattern X"
proof (rule set_eqI)
  fix p :: "nat \<times> nat"
  obtain j i where p: "p = (j, i)" by (cases p)
  have "p \<in> pattern (mat_T X) \<longleftrightarrow> (i, j) \<in> pattern X"
    using entry_mat_T[OF assms] by (simp add: p in_pattern)
  also have "\<dots> \<longleftrightarrow> p \<in> (\<lambda>(i, j). (j, i)) ` pattern X"
    by (force simp: p image_iff)
  finally show "p \<in> pattern (mat_T X) \<longleftrightarrow> p \<in> (\<lambda>(i, j). (j, i)) ` pattern X" .
qed

section \<open>The claims\<close>




text \<open>
  C2. Masked accumulate. For \<open>X\<close>, \<open>Y\<close>, \<open>Z\<close> with \<open>X.cols = Y.rows\<close> and the shape
  of \<open>X\<cdot>Y\<close> equal to that of \<open>Z\<close>, \<open>mul(X, Y, Z)\<close> is \<open>Z + mask(X\<cdot>Y, sparsity(Z))\<close>:
  the pattern of the result is exactly the pattern of \<open>Z\<close>, each position of it holds
  the value of \<open>Z\<close> plus the entry of \<open>X\<cdot>Y\<close> there, and the entries of \<open>X\<cdot>Y\<close>
  outside the pattern of \<open>Z\<close> are absent from the result.
\<close>

theorem masked_accumulate_product:
  assumes "cols X = rows Y" and "rows X = rows Z" and "cols Y = cols Z"
  shows "\<exists>P R. mul matrix_type X Y = ([Call_zz_mtimes], Inr P)
      \<and> mul3 matrix_type X Y Z = ([Call_zz_mtimes3], Inr R)
      \<and> mat_add Z (mask_pattern P Z) = Inr R
      \<and> rows R = rows Z \<and> cols R = cols Z
      \<and> pattern R = pattern Z
      \<and> (\<forall>i j. val (entry P i j) = dot X Y i j)
      \<and> (\<forall>i j. entry R i j =
            (case entry Z i j of None \<Rightarrow> None | Some z \<Rightarrow> Some (z + val (entry P i j))))"
proof -
  from mat_mtimes3_entries[OF assms] obtain P R where
    pr: "mat_mtimes X Y = Inr P" "mat_mtimes3 X Y Z = Inr R" "mat_add Z (mask_pattern P Z) = Inr R"
        "rows R = rows Z" "cols R = cols Z"
    and e: "\<And>i j. entry R i j = (case entry Z i j of None \<Rightarrow> None | Some z \<Rightarrow> Some (z + dot X Y i j))"
    by blast
  have v: "val (entry P i j) = dot X Y i j" for i j
  proof (cases "i < rows X \<and> j < cols Y")
    case True
    from pr(1) assms(1) have "P = \<lparr>rows = rows X, cols = cols Y,
        cells = map (\<lambda>j. map (\<lambda>i. product_entry X Y i j) [0 ..< rows X]) [0 ..< cols Y]\<rparr>"
      by (simp add: mat_mtimes_def)
    then have "entry P i j = product_entry X Y i j"
      using True by (simp add: entry_table)
    then show ?thesis by (simp add: val_product_entry)
  next
    case False
    from pr(1) assms(1) have "rows P = rows X" "cols P = cols Y"
      by (auto simp: mat_mtimes_def)
    with False have "entry P i j = None" by (auto simp: entry_def)
    moreover have "dot X Y i j = 0"
    proof -
      have "val (entry X i k) * val (entry Y k j) = 0" for k
        using False by (auto simp: entry_def val_def)
      then show ?thesis by (simp add: dot_def)
    qed
    ultimately show ?thesis by (simp add: val_def)
  qed
  have pat: "pattern R = pattern Z"
  proof (rule set_eqI)
    fix p :: "nat \<times> nat"
    obtain i j where p: "p = (i, j)" by (cases p)
    show "p \<in> pattern R \<longleftrightarrow> p \<in> pattern Z"
      by (simp add: p in_pattern e split: option.splits)
  qed
  have e': "entry R i j =
      (case entry Z i j of None \<Rightarrow> None | Some z \<Rightarrow> Some (z + val (entry P i j)))" for i j
    unfolding v by (rule e)
  have m2: "mul matrix_type X Y = ([Call_zz_mtimes], Inr P)"
    using pr(1) by (simp add: mul_def matrix_type_def)
  have m3: "mul3 matrix_type X Y Z = ([Call_zz_mtimes3], Inr R)"
    using pr(2) by (simp add: mul3_def matrix_type_def)
  have "mul matrix_type X Y = ([Call_zz_mtimes], Inr P)
      \<and> mul3 matrix_type X Y Z = ([Call_zz_mtimes3], Inr R)
      \<and> mat_add Z (mask_pattern P Z) = Inr R
      \<and> rows R = rows Z \<and> cols R = cols Z
      \<and> pattern R = pattern Z
      \<and> (\<forall>i j. val (entry P i j) = dot X Y i j)
      \<and> (\<forall>i j. entry R i j =
            (case entry Z i j of None \<Rightarrow> None | Some z \<Rightarrow> Some (z + val (entry P i j))))"
    using m2 m3 pr(3,4,5) pat e' v by blast
  then show ?thesis by blast
qed

theorem masked_accumulate_product_witness:
  "cols example_D = rows example_D \<and> rows example_D = rows example_Z \<and> cols example_D = cols example_Z
   \<and> (\<exists>P R. mul matrix_type example_D example_D = ([Call_zz_mtimes], Inr P)
      \<and> mul3 matrix_type example_D example_D example_Z = ([Call_zz_mtimes3], Inr R)
      \<and> mat_add example_Z (mask_pattern P example_Z) = Inr R
      \<and> rows R = rows example_Z \<and> cols R = cols example_Z
      \<and> pattern R = pattern example_Z
      \<and> (\<forall>i j. val (entry P i j) = dot example_D example_D i j)
      \<and> (\<forall>i j. entry R i j =
            (case entry example_Z i j of None \<Rightarrow> None | Some z \<Rightarrow> Some (z + val (entry P i j)))))
   \<and> mul3 matrix_type example_D example_D example_Z
         = ([Call_zz_mtimes3],
            Inr \<lparr>rows = 2, cols = 2, cells = [[Some 17, None], [None, None]]\<rparr>)"
proof -
  have h: "cols example_D = rows example_D" "rows example_D = rows example_Z"
          "cols example_D = cols example_Z"
    by (simp_all add: example_D_def example_Z_def)
  have "mul3 matrix_type example_D example_D example_Z
          = ([Call_zz_mtimes3],
             Inr \<lparr>rows = 2, cols = 2, cells = [[Some 17, None], [None, None]]\<rparr>)"
    by code_simp
  with masked_accumulate_product[OF h] h show ?thesis by blast
qed

text \<open>
  C3. The n-ary product of a non-empty list is the strict left-to-right fold of the
  specification: it starts with \<open>list[0]\<close> and combines each further element \<open>e\<close> by
  \<open>result = mul(result, e)\<close>. In particular \<open>mul([A, B, C])\<close> is \<open>mul(mul(A, B), C)\<close>
  and \<open>mul([A])\<close> is \<open>A\<close>, with no call of the product. This holds for every
  representation, whether or not the products succeed.
\<close>

theorem nary_mul_is_left_fold:
  "mul_list M (a # rest) = mul_fold_spec M (a # rest)
   \<and> mul_list M [A, B, C] = bind_outcome (mul M A B) (\<lambda>r. mul M r C)
   \<and> mul_list M [A] = ([], Inr A)"
proof -
  have g: "mul_list M (x # xs) = mul_fold_spec M (x # xs)" for x :: 'a and xs
    using mul_loop_foldl[of "[]" M "x # xs" 1 x]
    by (simp add: mul_list_def casadi_assert_def mul_fold_spec_def)
  have "mul_fold_spec M [A, B, C] = bind_outcome (mul M A B) (\<lambda>r. mul M r C)"
    by (simp add: mul_fold_spec_def bind_outcome_def split: prod.splits sum.splits)
  moreover have "mul_fold_spec M [A] = ([], Inr A)"
    by (simp add: mul_fold_spec_def)
  ultimately show ?thesis using g by simp
qed

text \<open>
  C4. For every increment \<open>incr \<ge> 1\<close>, \<open>horzsplit(X, incr)\<close> reads \<open>X.size2()\<close> and
  is \<open>horzsplit(X, offsets)\<close> with \<open>offsets = range(0, X.cols, incr)\<close> followed by
  \<open>X.cols\<close>; \<open>vertsplit(X, incr)\<close> is the same with the rows.
\<close>

theorem increment_split_delegates:
  assumes "1 \<le> incr"
  shows "horzsplit_incr M X incr =
           (Call_size2 # fst (horzsplit M X (range_int 0 (size2 M X) incr @ [size2 M X])),
            snd (horzsplit M X (range_int 0 (size2 M X) incr @ [size2 M X])))
       \<and> vertsplit_incr M X incr =
           (Call_size1 # fst (vertsplit M X (range_int 0 (size1 M X) incr @ [size1 M X])),
            snd (vertsplit M X (range_int 0 (size1 M X) incr @ [size1 M X])))"
  using assms
  by (simp add: horzsplit_incr_def vertsplit_incr_def casadi_assert_def Let_def split_def)

theorem increment_split_delegates_witness:
  "(1::int) \<le> 2
   \<and> horzsplit_incr matrix_type example_X 2 =
           (Call_size2 # fst (horzsplit matrix_type example_X [0, 2, 3]),
            snd (horzsplit matrix_type example_X [0, 2, 3]))
   \<and> vertsplit_incr matrix_type example_X 2 =
           (Call_size1 # fst (vertsplit matrix_type example_X [0, 2]),
            snd (vertsplit matrix_type example_X [0, 2]))"
proof -
  have h: "(1::int) \<le> 2" by simp
  have c: "range_int 0 (size2 matrix_type example_X) 2 @ [size2 matrix_type example_X] = [0, 2, 3]"
    by (simp add: range_int_def matrix_type_def example_X_def upt_conv_Cons)
  have r: "range_int 0 (size1 matrix_type example_X) 2 @ [size1 matrix_type example_X] = [0, 2]"
    by (simp add: range_int_def matrix_type_def example_X_def upt_conv_Cons)
  from increment_split_delegates[OF h, of matrix_type example_X] show ?thesis
    unfolding c r by simp
qed

text \<open>
  C5. For every increment \<open>incr < 1\<close>, \<open>horzsplit(X, incr)\<close> and
  \<open>vertsplit(X, incr)\<close> raise \<open>InvalidArgument\<close>; no member of the representation
  has been called, and there is no partial result.
\<close>

theorem invalid_increment_raises:
  assumes "incr < 1"
  shows "horzsplit_incr M X incr = ([], Inl InvalidArgument)
       \<and> vertsplit_incr M X incr = ([], Inl InvalidArgument)"
  using assms by (simp add: horzsplit_incr_def vertsplit_incr_def casadi_assert_def)

theorem invalid_increment_raises_witness:
  "(0::int) < 1 \<and> (- 1::int) < 1
   \<and> horzsplit_incr matrix_type example_X 0 = ([], Inl InvalidArgument)
   \<and> vertsplit_incr matrix_type example_X 0 = ([], Inl InvalidArgument)
   \<and> horzsplit_incr matrix_type example_X (- 1) = ([], Inl InvalidArgument)
   \<and> vertsplit_incr matrix_type example_X (- 1) = ([], Inl InvalidArgument)"
proof -
  have z: "(0::int) < 1" and m: "(- 1::int) < 1" by simp_all
  from invalid_increment_raises[OF z, of matrix_type example_X]
       invalid_increment_raises[OF m, of matrix_type example_X] z m
  show ?thesis by simp
qed

text \<open>
  C6. The n-ary product of the empty list raises \<open>InvalidArgument\<close>; no member of the
  representation, neither a product nor an accessor, has been called.
\<close>

theorem empty_product_raises: "mul_list M [] = ([], Inl InvalidArgument)"
  by (simp add: mul_list_def casadi_assert_def)

text \<open>
  C7. Each two-argument overload is the list form on the two-element sequence:
  \<open>horzcat(x, y) = horzcat([x, y])\<close>, \<open>vertcat(x, y) = vertcat([x, y])\<close> and
  \<open>blkdiag(x, y) = blkdiag([x, y])\<close>, for every representation and every \<open>x\<close>, \<open>y\<close>.
\<close>

theorem binary_overloads_are_list_forms:
  "horzcat2 M x y = horzcat M [x, y]
   \<and> vertcat2 M x y = vertcat M [x, y]
   \<and> blkdiag2 M x y = blkdiag M [x, y]"
  by (simp add: horzcat2_def vertcat2_def blkdiag2_def numeral_2_eq_2)

text \<open>
  C8. For every matrix-like value \<open>X\<close>, square or not, empty or not,
  \<open>transpose(transpose(X))\<close> is \<open>X\<close>; the transpose swaps rows and columns and maps
  each position \<open>(i, j)\<close> of the sparsity pattern to \<open>(j, i)\<close>.
\<close>

theorem transpose_involution:
  assumes "wf_matrix X"
  shows "bind_outcome (transpose_m matrix_type X) (transpose_m matrix_type)
           = ([Call_T, Call_T], Inr X)
     \<and> transpose_m matrix_type X = ([Call_T], Inr (mat_T X))
     \<and> rows (mat_T X) = cols X \<and> cols (mat_T X) = rows X
     \<and> (\<forall>i j. entry (mat_T X) j i = entry X i j)
     \<and> pattern (mat_T X) = (\<lambda>(i, j). (j, i)) ` pattern X"
proof -
  have "bind_outcome (transpose_m matrix_type X) (transpose_m matrix_type)
           = ([Call_T, Call_T], Inr X)"
    using mat_T_involution[OF assms]
    by (simp add: bind_outcome_def transpose_m_def matrix_type_def)
  moreover have "transpose_m matrix_type X = ([Call_T], Inr (mat_T X))"
    by (simp add: transpose_m_def matrix_type_def)
  moreover have "rows (mat_T X) = cols X \<and> cols (mat_T X) = rows X"
    by (simp add: mat_T_def)
  ultimately show ?thesis
    using entry_mat_T[OF assms] pattern_mat_T[OF assms] by simp
qed

theorem transpose_involution_witness:
  "wf_matrix example_X \<and> wf_matrix example_E
   \<and> bind_outcome (transpose_m matrix_type example_X) (transpose_m matrix_type)
           = ([Call_T, Call_T], Inr example_X)
   \<and> bind_outcome (transpose_m matrix_type example_E) (transpose_m matrix_type)
           = ([Call_T, Call_T], Inr example_E)"
proof -
  note x = transpose_involution[OF wf_example_X, THEN conjunct1]
  note e = transpose_involution[OF wf_example_E, THEN conjunct1]
  show ?thesis by (intro conjI wf_example_X wf_example_E x e)
qed

text \<open>
  C9. For every list with two elements of unequal row counts, \<open>horzcat\<close> raises
  \<open>ShapeMismatch\<close> immediately upon reading the mismatching shapes: the shapes are
  read in input order up to the first operand \<open>k\<close> whose row count differs from
  that of the first, no later shape is read and no data is copied; no value,
  truncated, padded or other, is returned. \<open>vertcat\<close> does the same for two
  elements of unequal column counts.
\<close>

theorem concat_shape_mismatch:
  "(a \<in> set v \<longrightarrow> b \<in> set v \<longrightarrow> rows a \<noteq> rows b \<longrightarrow>
      horzcat matrix_type v = ([Call_zz_horzcat], Inl ShapeMismatch)
      \<and> zz_horzcat matrix_type v = snd (mat_horzcat_steps v)
      \<and> (\<exists>k. 0 < k \<and> k < length v \<and> rows (v ! k) \<noteq> rows (v ! 0)
             \<and> (\<forall>i<k. rows (v ! i) = rows (v ! 0))
             \<and> mat_horzcat_steps v = (map Read_shape [0 ..< Suc k], Inl ShapeMismatch))
      \<and> (\<forall>i. Copy_data i \<notin> set (fst (mat_horzcat_steps v))))
   \<and> (c \<in> set w \<longrightarrow> d \<in> set w \<longrightarrow> cols c \<noteq> cols d \<longrightarrow>
      vertcat matrix_type w = ([Call_zz_vertcat], Inl ShapeMismatch)
      \<and> zz_vertcat matrix_type w = snd (mat_vertcat_steps w)
      \<and> (\<exists>k. 0 < k \<and> k < length w \<and> cols (w ! k) \<noteq> cols (w ! 0)
             \<and> (\<forall>i<k. cols (w ! i) = cols (w ! 0))
             \<and> mat_vertcat_steps w = (map Read_shape [0 ..< Suc k], Inl ShapeMismatch))
      \<and> (\<forall>i. Copy_data i \<notin> set (fst (mat_vertcat_steps w))))"
proof -
  have h: "zz_horzcat matrix_type v = snd (mat_horzcat_steps v)"
    by (simp add: matrix_type_def mat_horzcat_def)
  have g: "zz_vertcat matrix_type w = snd (mat_vertcat_steps w)"
    by (simp add: matrix_type_def mat_vertcat_def)
  have nc: "Copy_data i \<notin> set (map Read_shape ns)" for i ns
    by (induction ns) simp_all
  have hs: "horzcat matrix_type v = ([Call_zz_horzcat], Inl ShapeMismatch)
      \<and> (\<exists>k. 0 < k \<and> k < length v \<and> rows (v ! k) \<noteq> rows (v ! 0)
             \<and> (\<forall>i<k. rows (v ! i) = rows (v ! 0))
             \<and> mat_horzcat_steps v = (map Read_shape [0 ..< Suc k], Inl ShapeMismatch))
      \<and> (\<forall>i. Copy_data i \<notin> set (fst (mat_horzcat_steps v)))"
    if "a \<in> set v" "b \<in> set v" "rows a \<noteq> rows b"
  proof -
    from horzcat_steps_mismatch[OF that] obtain k where
      k: "0 < k \<and> k < length v \<and> rows (v ! k) \<noteq> rows (v ! 0)
             \<and> (\<forall>i<k. rows (v ! i) = rows (v ! 0))"
      and t: "mat_horzcat_steps v = (map Read_shape [0 ..< Suc k], Inl ShapeMismatch)"
      by blast
    from t have "fst (mat_horzcat_steps v) = map Read_shape [0 ..< Suc k]" by (simp only: fst_conv)
    then have n: "\<forall>i. Copy_data i \<notin> set (fst (mat_horzcat_steps v))"
      using nc by (simp only:) blast
    have "horzcat matrix_type v = ([Call_zz_horzcat], Inl ShapeMismatch)"
      by (simp add: horzcat_def h t)
    with k t n show ?thesis by blast
  qed
  have vs: "vertcat matrix_type w = ([Call_zz_vertcat], Inl ShapeMismatch)
      \<and> (\<exists>k. 0 < k \<and> k < length w \<and> cols (w ! k) \<noteq> cols (w ! 0)
             \<and> (\<forall>i<k. cols (w ! i) = cols (w ! 0))
             \<and> mat_vertcat_steps w = (map Read_shape [0 ..< Suc k], Inl ShapeMismatch))
      \<and> (\<forall>i. Copy_data i \<notin> set (fst (mat_vertcat_steps w)))"
    if "c \<in> set w" "d \<in> set w" "cols c \<noteq> cols d"
  proof -
    from vertcat_steps_mismatch[OF that] obtain k where
      k: "0 < k \<and> k < length w \<and> cols (w ! k) \<noteq> cols (w ! 0)
             \<and> (\<forall>i<k. cols (w ! i) = cols (w ! 0))"
      and t: "mat_vertcat_steps w = (map Read_shape [0 ..< Suc k], Inl ShapeMismatch)"
      by blast
    from t have "fst (mat_vertcat_steps w) = map Read_shape [0 ..< Suc k]" by (simp only: fst_conv)
    then have n: "\<forall>i. Copy_data i \<notin> set (fst (mat_vertcat_steps w))"
      using nc by (simp only:) blast
    have "vertcat matrix_type w = ([Call_zz_vertcat], Inl ShapeMismatch)"
      by (simp add: vertcat_def g t)
    with k t n show ?thesis by blast
  qed
  from h g hs vs show ?thesis by blast
qed

theorem concat_shape_mismatch_witness:
  "example_X \<in> set [example_X, example_Y, example_X]
   \<and> example_Y \<in> set [example_X, example_Y, example_X]
   \<and> rows example_X \<noteq> rows example_Y
   \<and> horzcat matrix_type [example_X, example_Y, example_X] = ([Call_zz_horzcat], Inl ShapeMismatch)
   \<and> mat_horzcat_steps [example_X, example_Y, example_X]
        = ([Read_shape 0, Read_shape 1], Inl ShapeMismatch)
   \<and> example_X \<in> set [example_X, example_Z] \<and> example_Z \<in> set [example_X, example_Z]
   \<and> cols example_X \<noteq> cols example_Z
   \<and> vertcat matrix_type [example_X, example_Z] = ([Call_zz_vertcat], Inl ShapeMismatch)
   \<and> mat_vertcat_steps [example_X, example_Z]
        = ([Read_shape 0, Read_shape 1], Inl ShapeMismatch)"
proof -
  have r: "rows example_X \<noteq> rows example_Y" by (simp add: example_X_def example_Y_def)
  have c: "cols example_X \<noteq> cols example_Z" by (simp add: example_X_def example_Z_def)
  have m: "example_X \<in> set [example_X, example_Y, example_X]"
          "example_Y \<in> set [example_X, example_Y, example_X]"
          "example_X \<in> set [example_X, example_Z]" "example_Z \<in> set [example_X, example_Z]"
    by simp_all
  have hs: "mat_horzcat_steps [example_X, example_Y, example_X]
        = ([Read_shape 0, Read_shape 1], Inl ShapeMismatch)"
    by code_simp
  have vs: "mat_vertcat_steps [example_X, example_Z]
        = ([Read_shape 0, Read_shape 1], Inl ShapeMismatch)"
    by code_simp
  note t = concat_shape_mismatch[of example_X "[example_X, example_Y, example_X]" example_Y
                                example_X "[example_X, example_Z]" example_Z]
  from t m r have h: "horzcat matrix_type [example_X, example_Y, example_X]
                   = ([Call_zz_horzcat], Inl ShapeMismatch)"
    by blast
  from t m c have v: "vertcat matrix_type [example_X, example_Z]
                   = ([Call_zz_vertcat], Inl ShapeMismatch)"
    by blast
  from r c m hs vs h v show ?thesis by blast
qed

text \<open>
  C10. The calls \<open>horzsplit(v)\<close> and \<open>vertsplit(v)\<close> with one argument use the
  increment 1: \<open>horzsplit(v)\<close> is \<open>horzsplit(v, 1)\<close>, the split at the offsets
  \<open>[0, 1, \<dots>, v.cols]\<close>, and \<open>vertsplit(v)\<close> is \<open>vertsplit(v, 1)\<close>, the split at
  \<open>[0, 1, \<dots>, v.rows]\<close>.
\<close>

theorem default_increment_is_one:
  "horzsplit_default M v = horzsplit_incr M v 1
   \<and> vertsplit_default M v = vertsplit_incr M v 1
   \<and> (0 \<le> size2 M v \<longrightarrow>
        horzsplit_default M v = (Call_size2 # fst (horzsplit M v [0 .. size2 M v]),
                                 snd (horzsplit M v [0 .. size2 M v])))
   \<and> (0 \<le> size1 M v \<longrightarrow>
        vertsplit_default M v = (Call_size1 # fst (vertsplit M v [0 .. size1 M v]),
                                 snd (vertsplit M v [0 .. size1 M v])))"
  by (simp add: horzsplit_default_def vertsplit_default_def horzsplit_incr_def
      vertsplit_incr_def casadi_assert_def Let_def split_def range_int_one)

theorem default_increment_is_one_witness:
  "0 \<le> size2 matrix_type example_X \<and> 0 \<le> size1 matrix_type example_X
   \<and> horzsplit_default matrix_type example_X = horzsplit_incr matrix_type example_X 1
   \<and> vertsplit_default matrix_type example_X = vertsplit_incr matrix_type example_X 1
   \<and> horzsplit_default matrix_type example_X
       = (Call_size2 # fst (horzsplit matrix_type example_X [0, 1, 2, 3]),
          snd (horzsplit matrix_type example_X [0, 1, 2, 3]))
   \<and> vertsplit_default matrix_type example_X
       = (Call_size1 # fst (vertsplit matrix_type example_X [0, 1, 2]),
          snd (vertsplit matrix_type example_X [0, 1, 2]))"
proof -
  have c: "size2 matrix_type example_X = 3" and r: "size1 matrix_type example_X = 2"
    by (simp_all add: matrix_type_def example_X_def)
  have u3: "[0 .. 3::int] = [0, 1, 2, 3]" and u2: "[0 .. 2::int] = [0, 1, 2]"
    by (simp_all add: upto.simps)
  have p: "(0::int) \<le> 3" "(0::int) \<le> 2" by simp_all
  from default_increment_is_one[of matrix_type example_X] p show ?thesis
    unfolding c r u3 u2 by blast
qed

end
